theory Spec2Isabelle
  imports Main "HOL-Library.Word"
begin

unbundle bit_operations_syntax

section \<open>Machine arithmetic of \<^verbatim>\<open>hash.c\<close>\<close>

text \<open>
  The program computes on \<^verbatim>\<open>long long\<close> (signed, 64 bits), \<^verbatim>\<open>int\<close> (signed, 32 bits) and
  \<^verbatim>\<open>uint64_t\<close>. Signed values are modelled as mathematical integers kept inside the type's
  range: the result of every \<^verbatim>\<open>+\<close>, \<^verbatim>\<open>-\<close> and \<^verbatim>\<open>*\<close> is reduced to two's complement by \<open>s64\<close>,
  which makes every function of the model total. C leaves signed overflow undefined, so a
  value computed after an overflow says nothing about the program: the theorems on the packed
  integer and on the quadratic stage hold for executions without signed overflow, and say so
  in their hypotheses. Division truncates towards zero, and it is the one operation that can
  stop the program: a zero divisor, or the quotient \<open>- 2 ^ 63 / - 1\<close>, is a fault. The unsigned
  values of the finalizer are \<open>64 word\<close>.
\<close>

datatype fault = DivByZero | DivOverflow

definition s64 :: "int \<Rightarrow> int" where
  "s64 z = (z + 2 ^ 63) mod 2 ^ 64 - 2 ^ 63"

definition s32 :: "int \<Rightarrow> int" where
  "s32 z = (z + 2 ^ 31) mod 2 ^ 32 - 2 ^ 31"

definition in_s64 :: "int \<Rightarrow> bool" where
  "in_s64 z = (- (2 ^ 63) \<le> z \<and> z < 2 ^ 63)"

text \<open>C's \<^verbatim>\<open>/\<close> and \<^verbatim>\<open>%\<close> on signed operands: the quotient is rounded towards zero.\<close>

definition tdiv :: "int \<Rightarrow> int \<Rightarrow> int" where
  "tdiv a b = (if (a < 0) = (b < 0) then \<bar>a\<bar> div \<bar>b\<bar> else - (\<bar>a\<bar> div \<bar>b\<bar>))"

definition tmod :: "int \<Rightarrow> int \<Rightarrow> int" where
  "tmod a b = a - b * tdiv a b"

definition ll_div :: "int \<Rightarrow> int \<Rightarrow> fault + int" where
  "ll_div a b =
     (if b = 0 then Inl DivByZero
      else if a = - (2 ^ 63) \<and> b = - 1 then Inl DivOverflow
      else Inr (tdiv a b))"

definition ll_mod :: "int \<Rightarrow> int \<Rightarrow> fault + int" where
  "ll_mod a b =
     (if b = 0 then Inl DivByZero
      else if a = - (2 ^ 63) \<and> b = - 1 then Inl DivOverflow
      else Inr (tmod a b))"

section \<open>The helpers\<close>

text \<open>
  \<^verbatim>\<open>digit_return\<close>: 1 for zero, otherwise the number of times a positive \<^verbatim>\<open>num\<close> can be
  divided by ten before it reaches zero (so 0 for a negative \<^verbatim>\<open>num\<close>, whose loop never runs).
\<close>

function digit_loop :: "int \<Rightarrow> int \<Rightarrow> int" where
  "digit_loop num digits =
     (if num > 0 then digit_loop (tdiv num 10) (s64 (digits + 1)) else digits)"
  by pat_completeness auto
termination
  by (relation "measure (\<lambda>(num, digits). nat num)") (auto simp: tdiv_def)

declare digit_loop.simps [simp del]

definition digit_return :: "int \<Rightarrow> int" where
  "digit_return num = (if num = 0 then 1 else digit_loop num 0)"

text \<open>\<^verbatim>\<open>pow10ll\<close>: \<^verbatim>\<open>r = 1; while (n-- > 0) r *= 10;\<close>\<close>

function pow10ll_loop :: "int \<Rightarrow> int \<Rightarrow> int" where
  "pow10ll_loop n r = (if n > 0 then pow10ll_loop (n - 1) (s64 (r * 10)) else r)"
  by pat_completeness auto
termination
  by (relation "measure (\<lambda>(n, r). nat n)") auto

declare pow10ll_loop.simps [simp del]

definition pow10ll :: "int \<Rightarrow> int" where
  "pow10ll n = pow10ll_loop n 1"

text \<open>
  \<^verbatim>\<open>isqrt\<close>: Newton's iteration. The loop body assigns \<^verbatim>\<open>x = y\<close> first, so the division
  \<^verbatim>\<open>n / x\<close> divides by the old \<^verbatim>\<open>y\<close>. Each round makes \<^verbatim>\<open>x\<close> strictly smaller, and every
  value computed in the loop lies in the 64-bit range, so the loop ends.
\<close>

function isqrt_loop :: "int \<Rightarrow> int \<Rightarrow> int \<Rightarrow> fault + int" where
  "isqrt_loop n x y =
     (if y < x then
        (if y = 0 then Inl DivByZero
         else if n = - (2 ^ 63) \<and> y = - 1 then Inl DivOverflow
         else isqrt_loop n y (tdiv (s64 (y + tdiv n y)) 2))
      else Inr x)"
  by pat_completeness auto
termination
proof (relation "measure (\<lambda>(n, x, y). if y < x then 1 + nat (x + 2 ^ 63) else 0)")
  show "wf (measure (\<lambda>(n :: int, x :: int, y :: int). if y < x then 1 + nat (x + 2 ^ 63) else 0))"
    by simp
next
  fix n x y :: int
  assume yx: "y < x"
  define y' where "y' = tdiv (s64 (y + tdiv n y)) 2"
  have r: "- (2 ^ 63) \<le> s64 (y + tdiv n y)"
    by (simp add: s64_def)
  have "- (2 ^ 63) \<le> y'"
    using r unfolding y'_def tdiv_def by auto
  then have "(if y' < y then 1 + nat (y + 2 ^ 63) else 0) < 1 + nat (x + 2 ^ 63)"
    using yx by auto
  then show "((n, y, tdiv (s64 (y + tdiv n y)) 2), (n, x, y))
      \<in> measure (\<lambda>(n, x, y). if y < x then 1 + nat (x + 2 ^ 63) else 0)"
    using yx by (simp add: y'_def)
qed

declare isqrt_loop.simps [simp del]

definition isqrt :: "int \<Rightarrow> fault + int" where
  "isqrt n = isqrt_loop n n (tdiv (s64 (n + 1)) 2)"

section \<open>The quadratic scrambler\<close>

text \<open>
  \<^verbatim>\<open>quadratic_roots\<close>, up to the two absolute values: the pair \<open>(real_part, imag_part)\<close>.
  The discriminant is computed first, then \<^verbatim>\<open>base = (-b) / (2 * a)\<close>, which is where a zero
  leading coefficient stops the program.
\<close>

definition quadratic_parts :: "int \<Rightarrow> int \<Rightarrow> int \<Rightarrow> fault + (int \<times> int)" where
  "quadratic_parts a b c =
     (let discriminant = s64 (s64 (b * b) - s64 (s64 (4 * a) * c));
          two_a = s64 (2 * a)
      in case ll_div (s64 (- b)) two_a of
           Inl e \<Rightarrow> Inl e
         | Inr base \<Rightarrow>
             (case (if discriminant < 0 then
                      (case isqrt (s64 (- discriminant)) of
                         Inl e \<Rightarrow> Inl e
                       | Inr imag_part \<Rightarrow> Inr (base, imag_part))
                    else
                      (case isqrt discriminant of
                         Inl e \<Rightarrow> Inl e
                       | Inr sqrt_d \<Rightarrow>
                           (case ll_div sqrt_d two_a of
                              Inl e \<Rightarrow> Inl e
                            | Inr q \<Rightarrow>
                                (let root1 = s64 (base + q); root2 = s64 (base - q)
                                 in Inr (if root1 < root2 then root1 else root2,
                                         if root1 < root2 then root2 else root1))))) of
                Inl e \<Rightarrow> Inl e
              | Inr (real_part, imag_part) \<Rightarrow>
                  Inr (if real_part < 0 then s64 (- real_part) else real_part,
                       if imag_part < 0 then s64 (- imag_part) else imag_part)))"

definition quadratic_roots :: "int \<Rightarrow> int \<Rightarrow> int \<Rightarrow> fault + int" where
  "quadratic_roots a b c =
     (case quadratic_parts a b c of
        Inl e \<Rightarrow> Inl e
      | Inr (real_part, imag_part) \<Rightarrow> Inr (s64 (s64 (real_part * 1000000) + imag_part)))"

text \<open>
  The value that \<^verbatim>\<open>quadratic_roots\<close> passes to \<^verbatim>\<open>isqrt\<close>: the discriminant, negated first
  when it is negative. These two calls are the only calls of \<^verbatim>\<open>isqrt\<close> in the program.
\<close>

definition isqrt_arg :: "int \<Rightarrow> int \<Rightarrow> int \<Rightarrow> int" where
  "isqrt_arg a b c =
     (let discriminant = s64 (s64 (b * b) - s64 (s64 (4 * a) * c))
      in if discriminant < 0 then s64 (- discriminant) else discriminant)"

text \<open>
  \<^verbatim>\<open>quadratic_division\<close>: the two split sizes, the three chunks, and the call of
  \<^verbatim>\<open>quadratic_roots\<close>. \<^verbatim>\<open>digits\<close> is a 32-bit \<^verbatim>\<open>int\<close>; \<open>\<bar>div\<bar>\<close> is at most a third of it, so
  neither \<^verbatim>\<open>2 * div\<close>, \<^verbatim>\<open>digits - 2 * div\<close> nor \<^verbatim>\<open>div + rem\<close> can leave the range.
\<close>

definition split_div :: "int \<Rightarrow> int" where
  "split_div digits = tdiv digits 3"

definition split_rem :: "int \<Rightarrow> int" where
  "split_rem digits = digits - 2 * split_div digits"

definition quadratic_chunks :: "int \<Rightarrow> int \<Rightarrow> fault + (int \<times> int \<times> int)" where
  "quadratic_chunks num digits =
     (let p1 = pow10ll (split_div digits);
          p2 = pow10ll (split_div digits + split_rem digits)
      in case ll_mod num p1 of
           Inl e \<Rightarrow> Inl e
         | Inr constant \<Rightarrow>
             (case ll_div num p1 of
                Inl e \<Rightarrow> Inl e
              | Inr t \<Rightarrow>
                  (case ll_mod t p1 of
                     Inl e \<Rightarrow> Inl e
                   | Inr x \<Rightarrow>
                       (case ll_div num p2 of
                          Inl e \<Rightarrow> Inl e
                        | Inr x_square \<Rightarrow> Inr (x_square, x, constant)))))"

definition quadratic_division :: "int \<Rightarrow> int \<Rightarrow> fault + int" where
  "quadratic_division num digits =
     (case quadratic_chunks num digits of
        Inl e \<Rightarrow> Inl e
      | Inr (x_square, x, constant) \<Rightarrow> quadratic_roots x_square x constant)"

section \<open>The digit packer, the finalizer, the formatter\<close>

text \<open>
  The loop of \<^verbatim>\<open>hash\<close> over the string. The list holds the bytes at \<^verbatim>\<open>str\<close>; the loop stops at
  the first NUL byte (the end of the list stands for the terminator). Each byte is read as
  \<^verbatim>\<open>uint8_t\<close>, a value in 0..255.
\<close>

definition pack_step :: "int \<Rightarrow> char \<Rightarrow> int" where
  "pack_step num c =
     (let ch = (of_char c :: int)
      in s64 ((if ch < 10 then s64 (num * 10)
               else if ch < 100 then s64 (num * 100)
               else s64 (num * 1000)) + ch))"

fun pack_loop :: "int \<Rightarrow> string \<Rightarrow> int" where
  "pack_loop num [] = num"
| "pack_loop num (c # cs) =
     (if c = CHR 0x00 then num else pack_loop (pack_step num c) cs)"

text \<open>
  Step 3 of \<^verbatim>\<open>hash\<close>. The constant is \<^verbatim>\<open>unsigned long long\<close>, so \<^verbatim>\<open>quad\<close> and then \<^verbatim>\<open>num\<close> are
  converted to unsigned 64-bit values before the product and the exclusive or.
\<close>

definition finalizer :: "int \<Rightarrow> int \<Rightarrow> 64 word" where
  "finalizer num quad =
     (let h = word_of_int num XOR (word_of_int quad * 0x9E3779B97F4A7C15);
          h = h XOR drop_bit 33 h;
          h = h * 0xFF51AFD7ED558CCD;
          h = h XOR drop_bit 33 h;
          h = h * 0xC4CEB9FE1A85EC53;
          h = h XOR drop_bit 33 h
      in h)"

text \<open>
  Step 4: \<^verbatim>\<open>snprintf(out, sizeof(out), "%016llx", h)\<close>. The conversion \<^verbatim>\<open>%016llx\<close> writes the
  value in lowercase hexadecimal, without leading zeros, then pads it with zeros on the left
  to the minimum width 16. \<^verbatim>\<open>snprintf\<close> with the size \<open>n\<close> stores at most \<open>n - 1\<close> of these
  characters and a NUL after them; the bytes of the buffer behind the NUL keep their old
  contents.
\<close>

definition hex_digit :: "nat \<Rightarrow> char" where
  "hex_digit d = ''0123456789abcdef'' ! d"

function hex_digits :: "int \<Rightarrow> string" where
  "hex_digits n =
     (if n < 16 then [hex_digit (nat n)]
      else hex_digits (n div 16) @ [hex_digit (nat (n mod 16))])"
  by pat_completeness auto
termination
  by (relation "measure nat") auto

declare hex_digits.simps [simp del]

definition fmt_016llx :: "64 word \<Rightarrow> string" where
  "fmt_016llx h =
     (let ds = hex_digits (uint h) in replicate (16 - length ds) (CHR ''0'') @ ds)"

definition snprintf :: "string \<Rightarrow> nat \<Rightarrow> string \<Rightarrow> string" where
  "snprintf buf n s =
     (let w = take (n - 1) s in w @ [CHR 0x00] @ drop (length w + 1) buf)"

text \<open>
  \<^verbatim>\<open>hash\<close>. The static buffer \<^verbatim>\<open>out\<close> is state that outlives the call, so the model takes its
  contents before the call and returns its contents after the call (the 17 bytes the returned
  pointer refers to), or the fault that stopped the program.
\<close>

definition hash_num :: "string \<Rightarrow> int" where
  "hash_num str = pack_loop 0 str"

definition hash_quad :: "string \<Rightarrow> fault + int" where
  "hash_quad str =
     (let num = hash_num str; digits = digit_return num
      in quadratic_division num (s32 digits))"

definition hash :: "string \<Rightarrow> string \<Rightarrow> fault + string" where
  "hash str out =
     (case hash_quad str of
        Inl e \<Rightarrow> Inl e
      | Inr quad \<Rightarrow> Inr (snprintf out 17 (fmt_016llx (finalizer (hash_num str) quad))))"

text \<open>Reading a hexadecimal string back as a number, digit by digit from the left.\<close>

definition hex_value :: "char \<Rightarrow> int" where
  "hex_value c =
     (let k = (of_char c :: int)
      in if 48 \<le> k \<and> k \<le> 57 then k - 48 else k - 87)"

definition parse_hex :: "string \<Rightarrow> int" where
  "parse_hex cs = foldl (\<lambda>acc c. acc * 16 + hex_value c) 0 cs"

definition is_lower_hex :: "char \<Rightarrow> bool" where
  "is_lower_hex c = (c \<in> set ''0123456789abcdef'')"

section \<open>Conditions on the input\<close>

text \<open>
  Printable text: every byte lies in 32..126. The multiplier of a byte is the size of its
  decimal slot. \<open>no_overflow num str\<close> follows the packing loop from the accumulator \<open>num\<close>
  and says that neither the product nor the sum of any round leaves the signed 64-bit range.
\<close>

definition printable :: "string \<Rightarrow> bool" where
  "printable str = list_all (\<lambda>c. 32 \<le> (of_char c :: int) \<and> (of_char c :: int) \<le> 126) str"

definition slot :: "int \<Rightarrow> int" where
  "slot ch = (if ch < 10 then 10 else if ch < 100 then 100 else 1000)"

fun no_overflow :: "int \<Rightarrow> string \<Rightarrow> bool" where
  "no_overflow num [] = True"
| "no_overflow num (c # cs) =
     (if c = CHR 0x00 then True
      else in_s64 (num * slot (of_char c)) \<and> in_s64 (num * slot (of_char c) + of_char c) \<and>
           no_overflow (pack_step num c) cs)"

section \<open>The finalizer as the specification writes it\<close>

text \<open>
  The cascade of the specification, on unbounded integers with every reduction modulo
  \<open>2 ^ 64\<close> written out: the exclusive or of the packed integer with the salted product is
  converted to an unsigned 64-bit value, a shift right by 33 is a division by \<open>2 ^ 33\<close>, and
  each product is reduced modulo \<open>2 ^ 64\<close>.
\<close>

definition spec_mix :: "int \<Rightarrow> int \<Rightarrow> int" where
  "spec_mix packed scrambled =
     (let h = (packed XOR (scrambled * 0x9E3779B97F4A7C15)) mod 2 ^ 64;
          h = h XOR (h div 2 ^ 33);
          h = (h * 0xFF51AFD7ED558CCD) mod 2 ^ 64;
          h = h XOR (h div 2 ^ 33);
          h = (h * 0xC4CEB9FE1A85EC53) mod 2 ^ 64;
          h = h XOR (h div 2 ^ 33)
      in h)"

section \<open>Arithmetic facts\<close>

lemma s64_id: "in_s64 z \<Longrightarrow> s64 z = z"
  by (simp add: s64_def in_s64_def)

lemma s64_range: "in_s64 (s64 z)"
  by (simp add: s64_def in_s64_def)

lemma tdiv_nonneg: "0 \<le> a \<Longrightarrow> 0 < b \<Longrightarrow> tdiv a b = a div b"
  by (simp add: tdiv_def)

lemma tmod_nonneg: "0 \<le> a \<Longrightarrow> 0 < b \<Longrightarrow> tmod a b = a mod b"
  by (simp add: tmod_def tdiv_nonneg minus_mult_div_eq_mod)


section \<open>The split sizes\<close>

text \<open>
  Claim C8. For every digit count \<open>digits \<ge> 1\<close>, the sizes \<open>div = digits / 3\<close> and
  \<open>rem = digits - 2 * div\<close> computed by \<^verbatim>\<open>quadratic_division\<close> satisfy
  \<open>rem + 2 * div = digits\<close> and \<open>rem \<ge> div\<close>.
\<close>

theorem split_sizes:
  "1 \<le> digits \<Longrightarrow>
     split_rem digits + 2 * split_div digits = digits \<and> split_div digits \<le> split_rem digits"
  by (simp add: split_rem_def split_div_def tdiv_nonneg)

theorem split_sizes_witness:
  "(1::int) \<le> 4 \<and> split_rem 4 + 2 * split_div 4 = 4 \<and> split_div 4 \<le> split_rem 4"
  using split_sizes [of 4] by simp

section \<open>Digit counts and powers of ten\<close>

lemma digit_loop_count:
  "0 < num \<Longrightarrow> num < 10 ^ k \<Longrightarrow> 0 \<le> d \<Longrightarrow> d + int k < 2 ^ 63 \<Longrightarrow>
     \<exists>j. 1 \<le> j \<and> j \<le> k \<and> digit_loop num d = d + int j \<and> 10 ^ (j - 1) \<le> num \<and> num < 10 ^ j"
proof (induction k arbitrary: num d)
  case 0
  then show ?case by simp
next
  case (Suc k)
  have step: "digit_loop num d = digit_loop (num div 10) (d + 1)"
    using Suc.prems by (subst digit_loop.simps) (simp add: tdiv_nonneg s64_id in_s64_def)
  show ?case
  proof (cases "num div 10 = 0")
    case True
    then have "num < 10" using Suc.prems(1) by simp
    moreover have "digit_loop num d = d + 1"
      using step True by (simp add: digit_loop.simps)
    ultimately show ?thesis using Suc.prems(1) by (intro exI [of _ 1]) simp
  next
    case False
    then have pos: "0 < num div 10" using Suc.prems(1)
      by (simp add: pos_imp_zdiv_pos_iff)
    have lt: "num div 10 < 10 ^ k" using Suc.prems(2) by simp
    from Suc.IH [OF pos lt, of "d + 1"] Suc.prems
    obtain j where j: "1 \<le> j" "j \<le> k" "digit_loop (num div 10) (d + 1) = d + 1 + int j"
      "10 ^ (j - 1) \<le> num div 10" "num div 10 < 10 ^ j"
      by auto
    have "10 ^ (Suc j - 1) \<le> num" using j(1,4) by (cases j) auto
    moreover have "num < 10 ^ Suc j" using j(5) by simp
    ultimately show ?thesis using j step by (intro exI [of _ "Suc j"]) simp
  qed
qed

lemma pow10ll_loop_exact:
  "0 \<le> r \<Longrightarrow> r * 10 ^ k < 2 ^ 63 \<Longrightarrow> pow10ll_loop (int k) r = r * 10 ^ k"
proof (induction k arbitrary: r)
  case 0
  then show ?case by (simp add: pow10ll_loop.simps)
next
  case (Suc k)
  have "r * 10 \<le> r * 10 ^ Suc k" using Suc.prems(1) by (simp add: mult_left_mono)
  then have "s64 (r * 10) = r * 10"
    using Suc.prems by (intro s64_id) (simp add: in_s64_def)
  moreover have "pow10ll_loop (int (Suc k)) r = pow10ll_loop (int k) (s64 (r * 10))"
    by (subst pow10ll_loop.simps) simp
  ultimately show ?case using Suc.IH [of "r * 10"] Suc.prems by (simp add: mult.assoc)
qed

lemma pow10ll_exact: "k \<le> 18 \<Longrightarrow> pow10ll (int k) = 10 ^ k"
proof -
  assume "k \<le> 18"
  then have "(10::int) ^ k \<le> 10 ^ 18" by (intro power_increasing) auto
  then show ?thesis unfolding pow10ll_def by (subst pow10ll_loop_exact) auto
qed

lemma pow10ll_nonpos: "n \<le> 0 \<Longrightarrow> pow10ll n = 1"
  by (simp add: pow10ll_def pow10ll_loop.simps)

section \<open>The integer square root\<close>

lemma mult_div_le_int:
  fixes n x :: int
  assumes "0 < x"
  shows "x * (n div x) \<le> n"
proof -
  have "x * (n div x) + n mod x = n" by simp
  moreover have "0 \<le> n mod x" using assms by simp
  ultimately show ?thesis by linarith
qed

lemma newton_step_upper:
  fixes n x :: int
  assumes "1 \<le> x" "0 \<le> n"
  shows "n < ((x + n div x) div 2 + 1) * ((x + n div x) div 2 + 1)"
proof -
  define q where "q = n div x"
  define y where "y = (x + q) div 2"
  have "n mod x < x" using assms(1) by simp
  moreover have "n = x * q + n mod x" by (simp add: q_def)
  ultimately have n_lt: "n < x * (q + 1)" by (simp add: distrib_left)
  have "x + q < 2 * (y + 1)" unfolding y_def by presburger
  then have le: "x + q + 1 \<le> 2 * (y + 1)" by simp
  have q0: "0 \<le> q" using assms by (simp add: q_def pos_imp_zdiv_nonneg_iff)
  have "0 \<le> (x - (q + 1)) * (x - (q + 1))" by simp
  then have amgm: "4 * (x * (q + 1)) \<le> (x + q + 1) * (x + q + 1)"
    by (simp add: algebra_simps)
  have "(x + q + 1) * (x + q + 1) \<le> (2 * (y + 1)) * (2 * (y + 1))"
    using le assms q0 by (intro mult_mono) auto
  then have "4 * n < 4 * ((y + 1) * (y + 1))"
    using amgm n_lt by (simp add: algebra_simps)
  then show ?thesis by (simp add: y_def q_def)
qed

lemma newton_sum_bound:
  fixes n x :: int
  assumes "1 \<le> x" "x \<le> n"
  shows "1 \<le> n div x" and "x + n div x \<le> n + 1"
proof -
  define q where "q = n div x"
  show q1: "1 \<le> n div x" using assms by (simp add: pos_imp_zdiv_pos_iff int_one_le_iff_zero_less)
  have "0 \<le> (x - 1) * (q - 1)" using assms q1 by (simp add: q_def)
  then have "x + q \<le> x * q + 1" by (simp add: algebra_simps)
  moreover have "x * q \<le> n" using assms(1) mult_div_le_int [of x n] by (simp add: q_def)
  ultimately show "x + n div x \<le> n + 1" by (simp add: q_def)
qed

lemma isqrt_loop_floor:
  "1 \<le> x \<Longrightarrow> x \<le> n \<Longrightarrow> n < (x + 1) * (x + 1) \<Longrightarrow> y = (x + n div x) div 2 \<Longrightarrow>
   n \<le> 2 ^ 63 - 2 \<Longrightarrow>
     \<exists>r. isqrt_loop n x y = Inr r \<and> 0 \<le> r \<and> r * r \<le> n \<and> n < (r + 1) * (r + 1)"
proof (induction n x y rule: isqrt_loop.induct)
  case (1 n x y)
  show ?case
  proof (cases "y < x")
    case True
    have q1: "1 \<le> n div x" and "x + n div x \<le> n + 1"
      using newton_sum_bound [of x n] "1.prems" by auto
    have y1: "1 \<le> y" using q1 "1.prems"(1,4) by simp
    have yn: "y \<le> n" using True "1.prems"(2) by simp
    have up: "n < (y + 1) * (y + 1)"
      using newton_step_upper [of x n] "1.prems" by simp
    have sum: "y + n div y \<le> n + 1" using newton_sum_bound [of y n] y1 yn by simp
    have "0 \<le> n div y" using y1 yn by (simp add: pos_imp_zdiv_nonneg_iff)
    then have sum0: "0 \<le> y + n div y" using y1 by simp
    have td: "tdiv n y = n div y" using y1 yn by (simp add: tdiv_nonneg)
    have "s64 (y + n div y) = y + n div y"
      using sum sum0 "1.prems"(5) by (intro s64_id) (simp add: in_s64_def)
    then have next_y: "tdiv (s64 (y + tdiv n y)) 2 = (y + n div y) div 2"
      using sum0 by (simp add: td tdiv_nonneg)
    have unfold: "isqrt_loop n x y = isqrt_loop n y ((y + n div y) div 2)"
      using True y1 yn by (subst isqrt_loop.simps) (simp add: next_y)
    have "\<exists>r. isqrt_loop n y (tdiv (s64 (y + tdiv n y)) 2) = Inr r \<and> 0 \<le> r \<and> r * r \<le> n
        \<and> n < (r + 1) * (r + 1)"
      by (rule "1.IH") (use True y1 yn up "1.prems"(5) next_y in auto)
    then show ?thesis by (simp add: unfold next_y)
  next
    case False
    then have "2 * x \<le> x + n div x" using "1.prems"(4) by simp
    then have "x \<le> n div x" by simp
    then have "x * x \<le> x * (n div x)" using "1.prems"(1) by (intro mult_left_mono) auto
    moreover have "x * (n div x) \<le> n" using "1.prems"(1) mult_div_le_int [of x n] by simp
    ultimately have "x * x \<le> n" by simp
    moreover have "isqrt_loop n x y = Inr x" using False by (subst isqrt_loop.simps) simp
    ultimately show ?thesis using "1.prems" by simp
  qed
qed

lemma isqrt_floor:
  assumes "0 \<le> n" "n \<le> 2 ^ 63 - 2"
  shows "\<exists>r. isqrt n = Inr r \<and> 0 \<le> r \<and> r * r \<le> n \<and> n < (r + 1) * (r + 1)"
proof (cases "n = 0")
  case True
  then show ?thesis
    by (simp add: isqrt_def isqrt_loop.simps s64_def tdiv_def)
next
  case False
  then have n1: "1 \<le> n" using assms by simp
  have "s64 (n + 1) = n + 1" using assms by (intro s64_id) (simp add: in_s64_def)
  then have y: "tdiv (s64 (n + 1)) 2 = (n + n div n) div 2"
    using n1 by (simp add: tdiv_nonneg)
  have "(n + 1) * (n + 1) = n * n + 2 * n + 1" by (simp add: algebra_simps)
  moreover have "0 \<le> n * n" by simp
  ultimately have "n < (n + 1) * (n + 1)" using n1 by linarith
  then show ?thesis
    unfolding isqrt_def y using n1 assms(2) by (intro isqrt_loop_floor) auto
qed

section \<open>The quadratic stage on its regular domain\<close>

lemma tdiv_neg_left: "0 \<le> b \<Longrightarrow> 0 < d \<Longrightarrow> tdiv (- b) d = - (b div d)"
  by (simp add: tdiv_def)

lemma s64_nonneg: "0 \<le> z \<Longrightarrow> z < 2 ^ 63 \<Longrightarrow> s64 z = z"
  by (rule s64_id) (simp add: in_s64_def)

lemma s64_bounded:
  "- 9223372036854775808 \<le> z \<Longrightarrow> z \<le> 9223372036854775807 \<Longrightarrow> s64 z = z"
  by (rule s64_id) (simp add: in_s64_def)

lemma square_le_imp_le:
  fixes s b :: int
  assumes "s * s \<le> b * b" "0 \<le> s" "0 \<le> b"
  shows "s \<le> b"
proof (rule ccontr)
  assume "\<not> s \<le> b"
  then have "b < s" by simp
  then have "b * b < s * s" using assms(3) by (intro mult_strict_mono') auto
  then show False using assms(1) by simp
qed

lemma square_lt_imp_lt:
  fixes s m :: int
  assumes "s * s < m * m" "0 \<le> s" "0 \<le> m"
  shows "s < m"
proof (rule ccontr)
  assume "\<not> s < m"
  then have "m \<le> s" by simp
  then have "m * m \<le> s * s" using assms(3) by (intro mult_mono) auto
  then show False using assms(1) by simp
qed

lemma quadratic_parts_regular:
  assumes a: "1 \<le> a" "a \<le> 999999" and b: "0 \<le> b" "b \<le> 999999"
    and c: "0 \<le> c" "c \<le> 999999"
  shows "\<exists>re im. quadratic_parts a b c = Inr (re, im) \<and> 0 \<le> re \<and> 0 \<le> im \<and>
           re * 1000000 + im \<le> 999999999999"
proof -
  define P where "P = b * b"
  define Q where "Q = a * c"
  define D where "D = P - 4 * Q"
  define t where "t = b div (2 * a)"
  have "b * b \<le> 999999 * 999999" by (rule mult_mono) (use b in auto)
  then have P: "0 \<le> P" "P \<le> 999998000001" by (simp_all add: P_def)
  have "a * c \<le> 999999 * 999999" by (rule mult_mono) (use a c in auto)
  then have Q: "0 \<le> Q" "Q \<le> 999998000001" using a c by (simp_all add: Q_def)
  have D_eq: "b * b - 4 * a * c = D" by (simp add: D_def P_def Q_def)
  have s_bb: "s64 (b * b) = b * b"
    unfolding P_def [symmetric] using P by (intro s64_id) (simp add: in_s64_def)
  have s_4a: "s64 (4 * a) = 4 * a" using a by (intro s64_id) (simp add: in_s64_def)
  have "s64 (4 * Q) = 4 * Q" using Q by (intro s64_id) (simp add: in_s64_def)
  then have s_4ac: "s64 (4 * a * c) = 4 * a * c" by (simp add: Q_def mult.assoc)
  have D_range: "- 3999992000004 \<le> D" "D \<le> 999998000001" "D \<le> P"
    using P Q by (simp_all add: D_def)
  have s_D: "s64 (b * b - 4 * a * c) = D"
    unfolding D_eq using D_range by (intro s64_id) (simp add: in_s64_def)
  have disc: "s64 (s64 (b * b) - s64 (s64 (4 * a) * c)) = D"
    by (simp add: s_bb s_4a s_4ac s_D)
  have two_a: "s64 (2 * a) = 2 * a" using a by (intro s64_id) (simp add: in_s64_def)
  have neg_b: "s64 (- b) = - b" using b by (intro s64_id) (simp add: in_s64_def)
  have base: "ll_div (s64 (- b)) (s64 (2 * a)) = Inr (- t)"
    using a b by (simp add: two_a neg_b ll_div_def tdiv_neg_left t_def)
  have t0: "0 \<le> t" using a b by (simp add: t_def pos_imp_zdiv_nonneg_iff)
  have "t \<le> b div 2" unfolding t_def using a b by (intro zdiv_mono2) auto
  then have t_le: "t \<le> 499999" using b by simp
  have s_t: "s64 t = t" using t0 t_le by (intro s64_id) (simp add: in_s64_def)
  show ?thesis
  proof (cases "D < 0")
    case True
    have s_negD: "s64 (- D) = - D" using D_range True by (intro s64_id) (simp add: in_s64_def)
    obtain r where r: "isqrt (- D) = Inr r" "0 \<le> r" "r * r \<le> - D"
      using isqrt_floor [of "- D"] True D_range by auto
    have "r < 2000000"
    proof (rule square_lt_imp_lt)
      show "r * r < 2000000 * 2000000" using r(3) D_range by simp
    qed (use r(2) in auto)
    moreover have "quadratic_parts a b c = Inr (t, r)"
      unfolding quadratic_parts_def Let_def disc base using True r t0 by (simp add: s_negD s_t)
    ultimately show ?thesis using t0 t_le r(2) by simp
  next
    case False
    obtain r where r: "isqrt D = Inr r" "0 \<le> r" "r * r \<le> D"
      using isqrt_floor [of D] False D_range by auto
    have r_le: "r \<le> b"
    proof (rule square_le_imp_le)
      show "r * r \<le> b * b" using r(3) D_range(3) by (simp add: P_def)
    qed (use r(2) b in auto)
    define q where "q = r div (2 * a)"
    have q0: "0 \<le> q" using a r(2) by (simp add: q_def pos_imp_zdiv_nonneg_iff)
    have q_le: "q \<le> t" unfolding q_def t_def using a r_le by (intro zdiv_mono1) auto
    have quot: "ll_div r (s64 (2 * a)) = Inr q"
      using a r(2) by (simp add: two_a ll_div_def tdiv_nonneg q_def)
    have "quadratic_parts a b c = Inr (t + q, t - q)"
      unfolding quadratic_parts_def Let_def disc base using False r(1) q0 q_le t0 t_le
      by (simp add: quot s64_bounded)
    moreover have "(t + q) * 1000000 + (t - q) \<le> 999999999999"
      using t_le q_le by simp
    ultimately show ?thesis using q0 q_le t0 by simp
  qed
qed

lemma quadratic_roots_regular:
  assumes "1 \<le> a" "a \<le> 999999" "0 \<le> b" "b \<le> 999999" "0 \<le> c" "c \<le> 999999"
  shows "\<exists>r. quadratic_roots a b c = Inr r \<and> 0 \<le> r \<and> r \<le> 999999999999"
proof -
  obtain re im where p: "quadratic_parts a b c = Inr (re, im)" "0 \<le> re" "0 \<le> im"
    "re * 1000000 + im \<le> 999999999999"
    using quadratic_parts_regular [OF assms] by blast
  have "s64 (re * 1000000) = re * 1000000" using p(2-4) by (intro s64_id) (simp add: in_s64_def)
  moreover have "s64 (re * 1000000 + im) = re * 1000000 + im"
    using p(2-4) by (intro s64_id) (simp add: in_s64_def)
  ultimately show ?thesis using p by (simp add: quadratic_roots_def)
qed

section \<open>The chunks, by the size of the packed integer\<close>

lemma digit_return_pos:
  assumes "0 < num" "num < 2 ^ 63"
  shows "\<exists>j. 1 \<le> j \<and> j \<le> 19 \<and> digit_return num = int j \<and> 10 ^ (j - 1) \<le> num \<and> num < 10 ^ j"
proof -
  have "num < 10 ^ 19" using assms(2) by simp
  from digit_loop_count [OF assms(1) this, of 0]
  obtain j where "1 \<le> j" "j \<le> 19" "digit_loop num 0 = int j" "10 ^ (j - 1) \<le> num" "num < 10 ^ j"
    by auto
  then show ?thesis using assms(1) by (auto simp: digit_return_def)
qed


lemma div_pow10_bounds:
  fixes num :: int
  assumes lo: "10 ^ (j - 1) \<le> num" and hi: "num < 10 ^ j" and v: "1 \<le> v" "v \<le> j"
  shows "1 \<le> num div 10 ^ (j - v)" and "num div 10 ^ (j - v) < 10 ^ v"
proof -
  let ?d = "(10::int) ^ (j - v)"
  have d_pos: "0 < ?d" by simp
  have "?d \<le> 10 ^ (j - 1)" using v by (intro power_increasing) auto
  from this lo have "?d \<le> num" by (rule order_trans)
  then show "1 \<le> num div ?d"
    using d_pos by (simp add: pos_imp_zdiv_pos_iff int_one_le_iff_zero_less)
  show "num div ?d < 10 ^ v"
  proof (rule ccontr)
    assume "\<not> num div ?d < 10 ^ v"
    then have "10 ^ v \<le> num div ?d" by simp
    then have "?d * 10 ^ v \<le> ?d * (num div ?d)" by (intro mult_left_mono) auto
    also have "\<dots> \<le> num" using d_pos by (rule mult_div_le_int)
    finally have "?d * 10 ^ v \<le> num" .
    moreover have "?d * 10 ^ v = (10::int) ^ j"
      using v by (simp add: power_add [symmetric])
    ultimately show False using hi by simp
  qed
qed

lemma quadratic_chunks_regular:
  assumes "100 \<le> num" "num < 2 ^ 63"
  shows "\<exists>a b c. quadratic_chunks num (s32 (digit_return num)) = Inr (a, b, c) \<and>
           1 \<le> a \<and> a \<le> 999999 \<and> 0 \<le> b \<and> b \<le> 999999 \<and> 0 \<le> c \<and> c \<le> 999999"
proof -
  obtain j where j: "1 \<le> j" "j \<le> 19" "digit_return num = int j" "10 ^ (j - 1) \<le> num"
    "num < 10 ^ j"
    using digit_return_pos [of num] assms by auto
  have "3 \<le> j"
  proof (rule ccontr)
    assume "\<not> 3 \<le> j"
    then have "j \<le> 2" by simp
    then have "(10::int) ^ j \<le> 10 ^ 2" by (intro power_increasing) auto
    then show False using j(5) assms(1) by simp
  qed
  define v where "v = j div 3"
  have v: "1 \<le> v" "v \<le> 6" "v \<le> j" using \<open>3 \<le> j\<close> j(2) by (auto simp: v_def)
  have cast: "s32 (int j) = int j" using j(2) by (simp add: s32_def)
  have sd: "split_div (int j) = int v"
    by (simp add: split_div_def tdiv_nonneg v_def zdiv_int)
  have "int v + split_rem (int j) = int j - int v"
    by (simp add: split_rem_def sd)
  then have sr: "int v + split_rem (int j) = int (j - v)"
    using v(3) by simp
  have p1: "pow10ll (int v) = 10 ^ v" using v by (intro pow10ll_exact) simp
  have p2: "pow10ll (int (j - v)) = 10 ^ (j - v)" using v j(2) by (intro pow10ll_exact) simp
  define a where "a = num div 10 ^ (j - v)"
  define b where "b = (num div 10 ^ v) mod 10 ^ v"
  define c where "c = num mod 10 ^ v"
  have num0: "0 \<le> num" using assms(1) by simp
  have t0: "0 \<le> num div 10 ^ v" using num0 by (simp add: pos_imp_zdiv_nonneg_iff)
  have chunks: "quadratic_chunks num (s32 (digit_return num)) = Inr (a, b, c)"
    unfolding quadratic_chunks_def Let_def j(3) cast sd sr p1 p2
    using num0 t0 by (simp add: ll_mod_def ll_div_def tdiv_nonneg tmod_nonneg a_def b_def c_def)
  have "(10::int) ^ v \<le> 10 ^ 6" using v(2) by (intro power_increasing) auto
  then have pv: "(10::int) ^ v \<le> 1000000" by simp
  have a_b: "1 \<le> a" "a < 10 ^ v"
    using div_pow10_bounds [OF j(4) j(5) v(1) v(3)] by (simp_all add: a_def)
  have b_b: "0 \<le> b" "b < 10 ^ v" by (simp_all add: b_def)
  have c_b: "0 \<le> c" "c < 10 ^ v" by (simp_all add: c_def)
  show ?thesis using chunks a_b b_b c_b pv by (intro exI [of _ a] exI [of _ b] exI [of _ c]) simp
qed

lemma quadratic_chunks_small:
  assumes "0 \<le> num" "num \<le> 99"
  shows "quadratic_chunks num (s32 (digit_return num)) = Inr (0, 0, 0)"
proof -
  have "\<exists>j. 1 \<le> j \<and> j \<le> 2 \<and> digit_return num = int j \<and> num < 10 ^ j"
  proof (cases "num = 0")
    case True
    then show ?thesis by (intro exI [of _ 1]) (simp add: digit_return_def)
  next
    case False
    then obtain j where j: "1 \<le> j" "digit_return num = int j" "10 ^ (j - 1) \<le> num" "num < 10 ^ j"
      using digit_return_pos [of num] assms by auto
    have "j \<le> 2"
    proof (rule ccontr)
      assume "\<not> j \<le> 2"
      then have "(10::int) ^ 2 \<le> 10 ^ (j - 1)" by (intro power_increasing) auto
      then show False using j(3) assms(2) by simp
    qed
    then show ?thesis using j by auto
  qed
  then obtain j where j: "1 \<le> j" "j \<le> 2" "digit_return num = int j" "num < 10 ^ j" by auto
  have cast: "s32 (int j) = int j" using j(2) by (simp add: s32_def)
  have sd: "split_div (int j) = 0" using j(2) by (simp add: split_div_def tdiv_nonneg)
  have sr: "split_rem (int j) = int j" by (simp add: split_rem_def sd)
  have p2: "pow10ll (int j) = 10 ^ j" using j(2) by (intro pow10ll_exact) simp
  show ?thesis
    unfolding quadratic_chunks_def Let_def j(3) cast sd sr
    using assms(1) j(4)
    by (simp add: pow10ll_nonpos p2 ll_mod_def ll_div_def tdiv_nonneg tmod_nonneg)
qed



lemma quadratic_parts_zero_a: "quadratic_parts 0 b c = Inl DivByZero"
  by (simp add: quadratic_parts_def ll_div_def s64_def)



section \<open>The digit packer on printable text\<close>

lemma printable_Cons: "printable (c # cs) \<longleftrightarrow> 32 \<le> (of_char c :: int) \<and> (of_char c :: int) \<le> 126 \<and> printable cs"
  by (simp add: printable_def)

lemma printable_append: "printable (xs @ ys) \<longleftrightarrow> printable xs \<and> printable ys"
  by (simp add: printable_def)

lemma printable_not_nul: "32 \<le> (of_char c :: int) \<Longrightarrow> c \<noteq> CHR 0x00"
  by auto

lemma pack_loop_snoc:
  "printable xs \<Longrightarrow> 32 \<le> (of_char c :: int) \<Longrightarrow>
     pack_loop num (xs @ [c]) = pack_step (pack_loop num xs) c"
  by (induction xs arbitrary: num) (auto simp: printable_Cons)

lemma no_overflow_snoc:
  "printable xs \<Longrightarrow> 32 \<le> (of_char c :: int) \<Longrightarrow>
     no_overflow num (xs @ [c]) \<longleftrightarrow>
       no_overflow num xs \<and> in_s64 (pack_loop num xs * slot (of_char c)) \<and>
       in_s64 (pack_loop num xs * slot (of_char c) + of_char c)"
  by (induction xs arbitrary: num) (auto simp: printable_Cons)

lemma pack_step_exact:
  assumes "in_s64 (num * slot (of_char c))" "in_s64 (num * slot (of_char c) + of_char c)"
  shows "pack_step num c = num * slot (of_char c) + of_char c"
proof -
  have "pack_step num c = s64 (s64 (num * slot (of_char c)) + of_char c)"
    by (simp add: pack_step_def slot_def Let_def)
  then show ?thesis using assms by (simp add: s64_id)
qed

lemma pack_loop_lower:
  "printable xs \<Longrightarrow> no_overflow 0 xs \<Longrightarrow>
     0 \<le> pack_loop 0 xs \<and> (xs \<noteq> [] \<longrightarrow> 32 \<le> pack_loop 0 xs)"
proof (induction xs rule: rev_induct)
  case Nil
  then show ?case by simp
next
  case (snoc c xs)
  have pc: "32 \<le> (of_char c :: int)" and px: "printable xs"
    using snoc.prems(1) by (simp_all add: printable_append printable_Cons)
  have no: "no_overflow 0 xs" "in_s64 (pack_loop 0 xs * slot (of_char c))"
    "in_s64 (pack_loop 0 xs * slot (of_char c) + of_char c)"
    using snoc.prems(2) by (simp_all add: no_overflow_snoc [OF px pc])
  have P: "0 \<le> pack_loop 0 xs" using snoc.IH px no(1) by simp
  have "0 \<le> pack_loop 0 xs * slot (of_char c)"
    using P by (simp add: slot_def)
  then have "32 \<le> pack_loop 0 xs * slot (of_char c) + of_char c" using pc by linarith
  then show ?case
    by (simp add: pack_loop_snoc [OF px pc] pack_step_exact [OF no(2,3)])
qed

lemma low_digits_two:
  fixes P ch :: int
  assumes "32 \<le> ch" "ch \<le> 126"
  shows "(P * slot ch + ch) mod 100 = (if ch < 100 then ch else ch - 100)"
proof (cases "ch < 100")
  case True
  then have "(P * slot ch + ch) mod 100 = ch mod 100"
    using assms by (simp add: slot_def)
  then show ?thesis using True assms by simp
next
  case False
  have "P * slot ch + ch = (P * 10 + 1) * 100 + (ch - 100)"
    using False by (simp add: slot_def algebra_simps)
  then have "(P * slot ch + ch) mod 100 = (ch - 100) mod 100"
    by (simp only: mod_mult_self3)
  also have "\<dots> = ch - 100"
    by (rule mod_pos_pos_trivial) (use False assms in auto)
  finally show ?thesis using False by simp
qed

lemma slot_decode:
  fixes P P' ch ch' :: int
  assumes eq: "P * slot ch + ch = P' * slot ch' + ch'"
    and r: "32 \<le> ch" "ch \<le> 126" "32 \<le> ch'" "ch' \<le> 126"
  shows "ch = ch' \<and> P = P'"
proof -
  have "(if ch < 100 then ch else ch - 100) = (if ch' < 100 then ch' else ch' - 100)"
    using low_digits_two [of ch P] low_digits_two [of ch' P'] eq r by simp
  then have ch: "ch = ch'" using r by (simp split: if_splits)
  have "0 < slot ch'" by (simp add: slot_def)
  then have "P = P'" using eq ch by simp
  then show ?thesis using ch by simp
qed

text \<open>
  Claim C7. Two distinct strings of printable characters (bytes 32..126) whose packing never
  leaves the signed 64-bit range are packed to distinct integers: a byte below 100 fills a slot
  of two decimal digits and a byte from 100 on a slot of three, and the last two digits of the
  packed integer tell which of the two the last byte was.
\<close>

theorem digit_packer_injective:
  "printable xs \<Longrightarrow> printable ys \<Longrightarrow> no_overflow 0 xs \<Longrightarrow> no_overflow 0 ys \<Longrightarrow> xs \<noteq> ys \<Longrightarrow>
     hash_num xs \<noteq> hash_num ys"
proof -
  have inj: "printable xs \<Longrightarrow> printable ys \<Longrightarrow> no_overflow 0 xs \<Longrightarrow> no_overflow 0 ys \<Longrightarrow>
      pack_loop 0 xs = pack_loop 0 ys \<Longrightarrow> xs = ys" for xs ys
  proof (induction xs arbitrary: ys rule: rev_induct)
    case Nil
    then show ?case using pack_loop_lower [of ys] by (cases "ys = []") auto
  next
    case (snoc c xs)
    have pc: "32 \<le> (of_char c :: int)" "(of_char c :: int) \<le> 126" and px: "printable xs"
      using snoc.prems(1) by (simp_all add: printable_append printable_Cons)
    have no: "no_overflow 0 xs" "in_s64 (pack_loop 0 xs * slot (of_char c))"
      "in_s64 (pack_loop 0 xs * slot (of_char c) + of_char c)"
      using snoc.prems(3) by (simp_all add: no_overflow_snoc [OF px pc(1)])
    have val: "pack_loop 0 (xs @ [c]) = pack_loop 0 xs * slot (of_char c) + of_char c"
      by (simp add: pack_loop_snoc [OF px pc(1)] pack_step_exact [OF no(2,3)])
    show ?case
    proof (cases ys rule: rev_cases)
      case Nil
      then show ?thesis
        using snoc.prems(5) pack_loop_lower [OF snoc.prems(1) snoc.prems(3)] by simp
    next
      case (snoc zs d)
      have pd: "32 \<le> (of_char d :: int)" "(of_char d :: int) \<le> 126" and pz: "printable zs"
        using snoc.prems(2) snoc by (simp_all add: printable_append printable_Cons)
      have no': "no_overflow 0 zs" "in_s64 (pack_loop 0 zs * slot (of_char d))"
        "in_s64 (pack_loop 0 zs * slot (of_char d) + of_char d)"
        using snoc.prems(4) snoc by (simp_all add: no_overflow_snoc [OF pz pd(1)])
      have val': "pack_loop 0 ys = pack_loop 0 zs * slot (of_char d) + of_char d"
        by (simp add: snoc pack_loop_snoc [OF pz pd(1)] pack_step_exact [OF no'(2,3)])
      have "(of_char c :: int) = of_char d \<and> pack_loop 0 xs = pack_loop 0 zs"
        using snoc.prems(5) val val' pc pd by (intro slot_decode) auto
      then have "c = d" "xs = zs"
        using snoc.IH [OF px pz no(1) no'(1)] by auto
      then show ?thesis using snoc by simp
    qed
  qed
  assume "printable xs" "printable ys" "no_overflow 0 xs" "no_overflow 0 ys" "xs \<noteq> ys"
  then show ?thesis using inj [of xs ys] by (auto simp: hash_num_def)
qed

theorem digit_packer_injective_witness:
  "printable ''ab'' \<and> printable ''ba'' \<and> no_overflow 0 ''ab'' \<and> no_overflow 0 ''ba'' \<and>
   ''ab'' \<noteq> ''ba'' \<and> hash_num ''ab'' \<noteq> hash_num ''ba''"
proof -
  have h: "printable ''ab''" "printable ''ba''" "no_overflow 0 ''ab''" "no_overflow 0 ''ba''"
    "''ab'' \<noteq> ''ba''"
    by code_simp+
  show ?thesis using h digit_packer_injective [OF h] by simp
qed

section \<open>The finalizer\<close>

lemma uint_xor_shift:
  fixes h :: "64 word"
  shows "uint (h XOR drop_bit 33 h) = uint h XOR (uint h div 2 ^ 33)"
proof -
  have "take_bit 64 (uint h) = uint h"
    by (rule take_bit_int_eq_self) (use uint_lt2p [of h] in simp_all)
  then have "uint (drop_bit 33 h) = drop_bit 33 (uint h)"
    by (simp add: unsigned_drop_bit_eq)
  also have "\<dots> = uint h div 2 ^ 33"
    by (simp only: drop_bit_eq_div)
  finally show ?thesis by (simp only: unsigned_xor_eq)
qed

lemma uint_mult_const:
  fixes h :: "64 word"
  shows "uint (h * word_of_int k) = (uint h * k) mod 2 ^ 64"
proof -
  have "uint (h * word_of_int k) = (uint h * (k mod 2 ^ 64)) mod 2 ^ 64"
    by (simp add: uint_word_ariths uint_word_of_int)
  then show ?thesis by (simp only: mod_mult_right_eq)
qed

lemma uint_initial:
  "uint (word_of_int num XOR (word_of_int quad * word_of_int k) :: 64 word)
     = (num XOR (quad * k)) mod 2 ^ 64"
proof -
  have "(word_of_int num XOR (word_of_int quad * word_of_int k) :: 64 word)
      = word_of_int (num XOR (quad * k))"
    by (simp add: of_int_xor_eq)
  then show ?thesis by (simp only: uint_word_of_int) simp
qed

text \<open>
  Claim C5. For every packed integer and every scrambled value, the 64-bit value mixed by
  \<^verbatim>\<open>hash\<close> is the cascade of the specification: the exclusive or of the packed integer with
  the scrambled value times \<^verbatim>\<open>0x9E3779B97F4A7C15\<close>, then three rounds of \<^verbatim>\<open>h ^= h >> 33\<close>
  with the products by \<^verbatim>\<open>0xFF51AFD7ED558CCD\<close> and \<^verbatim>\<open>0xC4CEB9FE1A85EC53\<close> between them, all
  of it unsigned and reduced modulo \<open>2 ^ 64\<close>.
\<close>

theorem finalizer_refines_spec: "uint (finalizer num quad) = spec_mix num quad"
proof -
  have k: "(0x9E3779B97F4A7C15 :: 64 word) = word_of_int 0x9E3779B97F4A7C15"
    "(0xFF51AFD7ED558CCD :: 64 word) = word_of_int 0xFF51AFD7ED558CCD"
    "(0xC4CEB9FE1A85EC53 :: 64 word) = word_of_int 0xC4CEB9FE1A85EC53"
    by simp_all
  show ?thesis
    unfolding finalizer_def spec_mix_def Let_def k
    by (simp only: uint_xor_shift uint_mult_const uint_initial)
qed

section \<open>The formatter and the output buffer\<close>

lemma hex_digit_table:
  "\<forall>d \<in> {0..<16}. is_lower_hex (hex_digit d) \<and> hex_value (hex_digit d) = int d"
  by code_simp

lemma hex_digit_props:
  assumes "0 \<le> k" "k < 16"
  shows "is_lower_hex (hex_digit (nat k))" and "hex_value (hex_digit (nat k)) = k"
proof -
  have "nat k \<in> {0..<16}" using assms by auto
  then have "is_lower_hex (hex_digit (nat k)) \<and> hex_value (hex_digit (nat k)) = int (nat k)"
    using hex_digit_table by blast
  then show "is_lower_hex (hex_digit (nat k))" and "hex_value (hex_digit (nat k)) = k"
    using assms by simp_all
qed

lemma parse_hex_snoc: "parse_hex (cs @ [c]) = parse_hex cs * 16 + hex_value c"
  by (simp add: parse_hex_def)

lemma hex_digits_sound:
  "0 \<le> n \<Longrightarrow> list_all is_lower_hex (hex_digits n) \<and> parse_hex (hex_digits n) = n"
proof (induction n rule: hex_digits.induct)
  case (1 n)
  show ?case
  proof (cases "n < 16")
    case True
    then show ?thesis
      using "1.prems" hex_digit_props [of n]
      by (subst (1 2) hex_digits.simps) (simp add: parse_hex_def)
  next
    case False
    have m: "0 \<le> n mod 16" "n mod 16 < 16" by simp_all
    have ih: "list_all is_lower_hex (hex_digits (n div 16))"
      "parse_hex (hex_digits (n div 16)) = n div 16"
      using "1.IH" [OF False] "1.prems" by simp_all
    have unfold: "hex_digits n = hex_digits (n div 16) @ [hex_digit (nat (n mod 16))]"
      using False by (subst hex_digits.simps) simp
    show ?thesis
      unfolding unfold using ih hex_digit_props [OF m]
      by (simp add: parse_hex_snoc)
  qed
qed

lemma hex_digits_length:
  "0 \<le> n \<Longrightarrow> n < 16 ^ Suc k \<Longrightarrow> length (hex_digits n) \<le> Suc k"
proof (induction k arbitrary: n)
  case 0
  then show ?case by (subst hex_digits.simps) simp
next
  case (Suc k)
  show ?case
  proof (cases "n < 16")
    case True
    then show ?thesis by (subst hex_digits.simps) simp
  next
    case False
    have "n div 16 < 16 ^ Suc k" using Suc.prems(2) by simp
    then have "length (hex_digits (n div 16)) \<le> Suc k"
      using Suc.prems(1) by (intro Suc.IH) simp_all
    then show ?thesis using False by (subst hex_digits.simps) simp
  qed
qed

lemma parse_hex_leading_zeros: "parse_hex (replicate m (CHR ''0'') @ cs) = parse_hex cs"
proof -
  have "foldl (\<lambda>acc c. acc * 16 + hex_value c) 0 (replicate m (CHR ''0'')) = 0"
    by (induction m) (simp_all add: hex_value_def)
  then show ?thesis by (simp add: parse_hex_def)
qed

lemma fmt_016llx_props:
  "length (fmt_016llx h) = 16" "list_all is_lower_hex (fmt_016llx h)"
  "parse_hex (fmt_016llx h) = uint h"
proof -
  have n0: "0 \<le> uint h" by simp
  have "uint h < 2 ^ 64" using uint_lt2p [of h] by simp
  then have "uint h < 16 ^ Suc 15" by simp
  then have len: "length (hex_digits (uint h)) \<le> 16"
    using hex_digits_length [OF n0, of 15] by simp
  have zero: "is_lower_hex (CHR ''0'')" by (simp add: is_lower_hex_def)
  show "length (fmt_016llx h) = 16" using len by (simp add: fmt_016llx_def Let_def)
  show "list_all is_lower_hex (fmt_016llx h)"
    using hex_digits_sound [OF n0] zero by (auto simp: fmt_016llx_def Let_def list_all_iff)
  show "parse_hex (fmt_016llx h) = uint h"
    using hex_digits_sound [OF n0] by (simp add: fmt_016llx_def Let_def parse_hex_leading_zeros)
qed

lemma snprintf_full:
  "length s = 16 \<Longrightarrow> length buf = 17 \<Longrightarrow> snprintf buf 17 s = s @ [CHR 0x00]"
  by (simp add: snprintf_def)

text \<open>
  The buffer after \<^verbatim>\<open>snprintf(out, sizeof(out), "%016llx", h)\<close>, for every 64-bit value \<open>h\<close>:
  16 characters, each one of \<^verbatim>\<open>0123456789abcdef\<close>, then a NUL, and the 16 characters read
  back as a hexadecimal number are \<open>h\<close>.
\<close>

lemma digest_format:
  "length out = 17 \<Longrightarrow>
     length (snprintf out 17 (fmt_016llx h)) = 17 \<and>
     list_all is_lower_hex (take 16 (snprintf out 17 (fmt_016llx h))) \<and>
     snprintf out 17 (fmt_016llx h) ! 16 = CHR 0x00 \<and>
     parse_hex (take 16 (snprintf out 17 (fmt_016llx h))) = uint h"
  using fmt_016llx_props [of h]
  by (simp add: snprintf_full nth_append)

lemma digest_format_example:
  "length (replicate 17 (CHR ''x'')) = 17 \<and>
   length (snprintf (replicate 17 (CHR ''x'')) 17 (fmt_016llx 255)) = 17 \<and>
   list_all is_lower_hex (take 16 (snprintf (replicate 17 (CHR ''x'')) 17 (fmt_016llx 255))) \<and>
   snprintf (replicate 17 (CHR ''x'')) 17 (fmt_016llx 255) ! 16 = CHR 0x00 \<and>
   parse_hex (take 16 (snprintf (replicate 17 (CHR ''x'')) 17 (fmt_016llx 255))) = uint (255 :: 64 word)"
proof -
  have h: "length (replicate 17 (CHR ''x'')) = 17" by simp
  show ?thesis using h digest_format [OF h, of 255] by blast
qed

text \<open>
  Claim C9. Two calls of \<^verbatim>\<open>hash\<close> on the same string end alike, whatever the static buffer
  held before each of them: the result is a function of the string alone, and the call
  overwrites all 17 bytes of the buffer.
\<close>

theorem hash_deterministic:
  "length out1 = 17 \<Longrightarrow> length out2 = 17 \<Longrightarrow> hash str out1 = hash str out2"
  by (simp add: hash_def snprintf_full fmt_016llx_props(1) split: sum.splits)

theorem hash_deterministic_witness:
  "length (replicate 17 (CHR ''x'')) = 17 \<and> length (replicate 17 (CHR ''y'')) = 17 \<and>
   hash ''hello'' (replicate 17 (CHR ''x'')) = hash ''hello'' (replicate 17 (CHR ''y''))"
proof -
  have h: "length (replicate 17 (CHR ''x'')) = 17" "length (replicate 17 (CHR ''y'')) = 17"
    by simp_all
  show ?thesis using h hash_deterministic [OF h, of "''hello''"] by blast
qed

section \<open>Where the quadratic stage divides by zero\<close>


lemma in_s64_pack_step: "in_s64 (pack_step num c)"
  by (simp add: pack_step_def Let_def s64_range)

lemma in_s64_pack_loop: "in_s64 num \<Longrightarrow> in_s64 (pack_loop num str)"
  by (induction str arbitrary: num) (simp_all add: in_s64_pack_step)

lemma in_s64_hash_num: "in_s64 (hash_num str)"
  unfolding hash_num_def by (rule in_s64_pack_loop) (simp add: in_s64_def)



lemma quadratic_stage_small:
  assumes "0 \<le> num" "num \<le> 99"
  shows "quadratic_division num (s32 (digit_return num)) = Inl DivByZero"
  using assms
  by (simp add: quadratic_division_def quadratic_chunks_small quadratic_roots_def
      quadratic_parts_zero_a)

lemma quadratic_stage_regular:
  assumes "100 \<le> num" "num < 2 ^ 63"
  shows "\<exists>a b c r. quadratic_chunks num (s32 (digit_return num)) = Inr (a, b, c) \<and> 1 \<le> a \<and>
           quadratic_roots a b c = Inr r \<and>
           quadratic_division num (s32 (digit_return num)) = Inr r \<and>
           0 \<le> r \<and> r \<le> 999999999999"
proof -
  obtain a b c where ch: "quadratic_chunks num (s32 (digit_return num)) = Inr (a, b, c)"
    and bounds: "1 \<le> a" "a \<le> 999999" "0 \<le> b" "b \<le> 999999" "0 \<le> c" "c \<le> 999999"
    using quadratic_chunks_regular [OF assms] by blast
  obtain r where r: "quadratic_roots a b c = Inr r" "0 \<le> r" "r \<le> 999999999999"
    using quadratic_roots_regular [OF bounds] by blast
  show ?thesis using ch r bounds(1) by (simp add: quadratic_division_def)
qed


lemma printable_long_packs_high:
  assumes "printable str" "no_overflow 0 str"
    and "2 \<le> length str \<or> (\<exists>c. str = [c] \<and> 100 \<le> (of_char c :: int))"
  shows "100 \<le> hash_num str"
proof (cases str rule: rev_cases)
  case Nil
  then show ?thesis using assms(3) by simp
next
  case (snoc xs c)
  have pc: "32 \<le> (of_char c :: int)" and px: "printable xs"
    using assms(1) snoc by (simp_all add: printable_append printable_Cons)
  have no: "no_overflow 0 xs" "in_s64 (pack_loop 0 xs * slot (of_char c))"
    "in_s64 (pack_loop 0 xs * slot (of_char c) + of_char c)"
    using assms(2) snoc by (simp_all add: no_overflow_snoc [OF px pc])
  have val: "hash_num str = pack_loop 0 xs * slot (of_char c) + of_char c"
    by (simp add: hash_num_def snoc pack_loop_snoc [OF px pc] pack_step_exact [OF no(2,3)])
  have low: "0 \<le> pack_loop 0 xs" "xs \<noteq> [] \<longrightarrow> 32 \<le> pack_loop 0 xs"
    using pack_loop_lower [OF px no(1)] by simp_all
  show ?thesis
  proof (cases "xs = []")
    case True
    then have "100 \<le> (of_char c :: int)" using assms(3) snoc by simp
    then show ?thesis using True val by simp
  next
    case False
    then have P: "32 \<le> pack_loop 0 xs" using low(2) by simp
    have "10 \<le> slot (of_char c)" by (simp add: slot_def)
    then have "32 * 10 \<le> pack_loop 0 xs * slot (of_char c)"
      using P by (intro mult_mono) auto
    then show ?thesis using val pc by simp
  qed
qed



lemma hash_total_on_long_printable:
  assumes "printable str" "no_overflow 0 str"
    and "2 \<le> length str \<or> (\<exists>c. str = [c] \<and> 100 \<le> (of_char c :: int))"
    and "length out = 17"
  shows "\<exists>quad. hash_quad str = Inr quad \<and> 0 \<le> quad \<and> quad \<le> 999999999999 \<and>
           hash str out = Inr (fmt_016llx (finalizer (hash_num str) quad) @ [CHR 0x00])"
proof -
  have big: "100 \<le> hash_num str" using assms(1-3) by (rule printable_long_packs_high)
  have hi: "hash_num str < 2 ^ 63" using in_s64_hash_num [of str] by (simp add: in_s64_def)
  have "hash_quad str = quadratic_division (hash_num str) (s32 (digit_return (hash_num str)))"
    by (simp add: hash_quad_def Let_def)
  then obtain quad where q: "hash_quad str = Inr quad" "0 \<le> quad" "quad \<le> 999999999999"
    using quadratic_stage_regular [OF big hi] by auto
  then show ?thesis
    using assms(4) by (simp add: hash_def snprintf_full fmt_016llx_props(1))
qed

text \<open>
  Claim C1 says that \<^verbatim>\<open>hash\<close> returns a digest for every printable string, the empty string
  included. At the empty string, and at the one-character string \<^verbatim>\<open>a\<close>, the packed integer is
  below 100, the leading coefficient is 0 and \<^verbatim>\<open>(-b) / (2 * a)\<close> divides by zero: no digest
  is returned.
\<close>

theorem hash_faults_on_short_input:
  "hash [] out = Inl DivByZero \<and> hash ''a'' out = Inl DivByZero"
proof -
  have "hash_quad [] = Inl DivByZero" by code_simp
  moreover have "hash_quad ''a'' = Inl DivByZero" by code_simp
  ultimately show ?thesis by (simp add: hash_def)
qed

section \<open>The digest returned by \<^verbatim>\<open>hash\<close>\<close>

lemma hash_digest_format:
  assumes "length out = 17" "hash str out = Inr s"
  shows "\<exists>quad. hash_quad str = Inr quad \<and> length s = 17 \<and>
           list_all is_lower_hex (take 16 s) \<and> s ! 16 = CHR 0x00 \<and>
           parse_hex (take 16 s) = uint (finalizer (hash_num str) quad)"
proof (cases "hash_quad str")
  case (Inl e)
  then show ?thesis using assms(2) by (simp add: hash_def)
next
  case (Inr quad)
  then have "s = snprintf out 17 (fmt_016llx (finalizer (hash_num str) quad))"
    using assms(2) by (simp add: hash_def)
  then show ?thesis
    using Inr digest_format [OF assms(1), of "finalizer (hash_num str) quad"] by simp
qed

text \<open>
  Claim C6 says that the string returned by \<^verbatim>\<open>hash\<close> is 16 lowercase hexadecimal characters
  and a NUL, the hexadecimal form of the mixed value, whatever the length of the input, the
  empty string included. Lemma \<open>hash_digest_format\<close> proves it of every call that returns,
  as the call on \<^verbatim>\<open>hello\<close> does. The call on the empty string does not return: the packed
  integer is 0 and the quadratic stage divides by zero before any value is mixed or formatted.
\<close>

theorem hash_empty_string_has_no_digest:
  "hash_num [] = 0 \<and> hash_quad [] = Inl DivByZero \<and>
   hash [] (replicate 17 (CHR 0x00)) = Inl DivByZero \<and>
   hash ''hello'' (replicate 17 (CHR 0x00)) = Inr (''e85b753388878edf'' @ [CHR 0x00])"
  by code_simp

section \<open>The chunks and the scrambler at concrete inputs\<close>

text \<open>
  Claim C2 says that the three chunks partition the decimal digits of the packed integer, the
  leading chunk taking \<open>digits - 2 * div\<close> of them. The string \<^verbatim>\<open>AB\<close> packs to 6566, with 4
  digits, \<open>div = 1\<close> and \<open>rem = 2\<close>: the leading chunk is the single digit 6, not the two
  digits 65, because it is cut at \<open>10 ^ (div + rem)\<close>; the digit 5 is in no chunk, and 6766
  (the string \<^verbatim>\<open>CB\<close>) has the same three chunks.
\<close>

theorem chunks_drop_middle_digits:
  "hash_num ''AB'' = 6566 \<and> digit_return 6566 = 4 \<and> split_div 4 = 1 \<and> split_rem 4 = 2 \<and>
   quadratic_chunks 6566 4 = Inr (6, 6, 6) \<and>
   hash_num ''CB'' = 6766 \<and> digit_return 6766 = 4 \<and> quadratic_chunks 6766 4 = Inr (6, 6, 6)"
  by code_simp

text \<open>
  Claim C3 says that the scrambler returns a positive integer of at most 12 digits whose two
  parts have at most 6 digits each. For the packed integer 100 (the string \<^verbatim>\<open>d\<close>) it returns
  0; for the packed integer of \<^verbatim>\<open>ccc   ccc\<close> the imaginary part is 1973705, of 7 digits; and
  for the packed integer 0 it returns nothing.
\<close>

theorem scrambler_outside_documented_range:
  "hash_num ''d'' = 100 \<and> digit_return 100 = 3 \<and> quadratic_division 100 3 = Inr 0 \<and>
   hash_num ''ccc   ccc'' = 999999323232999999 \<and> digit_return 999999323232999999 = 18 \<and>
   quadratic_chunks 999999323232999999 18 = Inr (999999, 323232, 999999) \<and>
   quadratic_parts 999999 323232 999999 = Inr (0, 1973705) \<and>
   quadratic_division 0 1 = Inl DivByZero"
  by code_simp

section \<open>The integer square root and its callers\<close>

lemma isqrt_arg_regular:
  assumes a: "1 \<le> a" "a \<le> 999999" and b: "0 \<le> b" "b \<le> 999999"
    and c: "0 \<le> c" "c \<le> 999999"
  shows "0 \<le> isqrt_arg a b c \<and> isqrt_arg a b c \<le> 3999992000004"
proof -
  define P where "P = b * b"
  define Q where "Q = a * c"
  have "b * b \<le> 999999 * 999999" by (rule mult_mono) (use b in auto)
  then have P: "0 \<le> P" "P \<le> 999998000001" by (simp_all add: P_def)
  have "a * c \<le> 999999 * 999999" by (rule mult_mono) (use a c in auto)
  then have Q: "0 \<le> Q" "Q \<le> 999998000001" using a c by (simp_all add: Q_def)
  have s_4a: "s64 (4 * a) = 4 * a" using a by (intro s64_bounded) auto
  have "s64 (4 * Q) = 4 * Q" using Q by (intro s64_bounded) auto
  then have s_4ac: "s64 (4 * a * c) = 4 * Q" by (simp add: Q_def mult.assoc)
  have s_P: "s64 P = P" using P by (intro s64_bounded) auto
  have s_D: "s64 (P - 4 * Q) = P - 4 * Q" using P Q by (intro s64_bounded) auto
  have disc: "s64 (s64 (b * b) - s64 (s64 (4 * a) * c)) = P - 4 * Q"
    using s_P by (simp add: s_4a s_4ac s_D P_def [symmetric])
  have "s64 (- (P - 4 * Q)) = - (P - 4 * Q)" using P Q by (intro s64_bounded) auto
  then show ?thesis
    unfolding isqrt_arg_def Let_def disc using P Q by auto
qed

lemma isqrt_calls_in_range:
  assumes "0 \<le> num" "num < 2 ^ 63"
  shows "quadratic_division num (s32 (digit_return num)) = Inl DivByZero \<or>
         (\<exists>a b c. quadratic_chunks num (s32 (digit_return num)) = Inr (a, b, c) \<and>
            0 \<le> isqrt_arg a b c \<and> isqrt_arg a b c \<le> 3999992000004)"
proof (cases "num \<le> 99")
  case True
  then show ?thesis using assms(1) by (simp add: quadratic_stage_small)
next
  case False
  then have "100 \<le> num" by simp
  then obtain a b c where "quadratic_chunks num (s32 (digit_return num)) = Inr (a, b, c)"
    "1 \<le> a" "a \<le> 999999" "0 \<le> b" "b \<le> 999999" "0 \<le> c" "c \<le> 999999"
    using quadratic_chunks_regular [OF _ assms(2)] by blast
  then show ?thesis using isqrt_arg_regular [of a b c] by blast
qed

lemma isqrt_fault_propagates:
  assumes "ll_div (s64 (- b)) (s64 (2 * a)) = Inr base" "isqrt (isqrt_arg a b c) = Inl e"
  shows "quadratic_parts a b c = Inl e"
  using assms by (simp add: quadratic_parts_def isqrt_arg_def Let_def split: if_splits)




end
